theory Spec2Isabelle
  imports Main "HOL-Library.Word"
begin

unbundle bit_operations_syntax

section \<open>JavaScript values, counters and insertion-ordered maps\<close>

text \<open>
  The values that travel through \<open>fast-lookup.js\<close>: \<open>null\<close>, the data a caller hands
  to \<open>add\<close>, and the mock record that \<open>fetchFromIndex\<close> fabricates. \<open>Falsy d\<close> stands
  for caller data that JavaScript treats as false in \<open>if (result)\<close> (\<open>0\<close>, \<open>''\<close>,
  \<open>false\<close>, \<open>undefined\<close>), \<open>Obj d\<close> for any other caller data. \<open>Mock h t\<close> is the
  object \<open>{hash: h, source: `// Function ${h}`, wasm: base64('mock-wasm'), created: t}\<close>:
  its \<open>source\<close> and \<open>wasm\<close> fields are functions of \<open>h\<close>, its \<open>created\<close> field is
  the clock reading \<open>t\<close>.
\<close>

datatype ('k, 'd) jsval = Null | Falsy 'd | Obj 'd | Mock 'k string

fun truthy :: "('k, 'd) jsval \<Rightarrow> bool" where
  "truthy Null = False"
| "truthy (Falsy d) = False"
| "truthy (Obj d) = True"
| "truthy (Mock h t) = True"

text \<open>
  \<open>n++\<close> on a JavaScript number that counts up from 0: exact below \<open>2^53\<close>, and
  \<open>2^53 + 1\<close> rounds back to \<open>2^53\<close>.
\<close>

definition js_inc :: "nat \<Rightarrow> nat" where
  "js_inc n = (if n < 2 ^ 53 then n + 1 else n)"

text \<open>
  A JavaScript \<open>Map\<close> keeps its entries in insertion order: an association list, oldest
  entry first. \<open>Map_set\<close> on a key that is present replaces the value in place, on a new
  key it appends. \<open>Map_first_key\<close> is \<open>keys().next().value\<close>, \<open>None\<close> (\<open>undefined\<close>) on
  an empty map.
\<close>

definition Map_has :: "('k \<times> 'v) list \<Rightarrow> 'k \<Rightarrow> bool" where
  "Map_has m k = (map_of m k \<noteq> None)"

definition Map_delete :: "('k \<times> 'v) list \<Rightarrow> 'k \<Rightarrow> ('k \<times> 'v) list" where
  "Map_delete m k = filter (\<lambda>p. fst p \<noteq> k) m"

definition Map_set :: "('k \<times> 'v) list \<Rightarrow> 'k \<Rightarrow> 'v \<Rightarrow> ('k \<times> 'v) list" where
  "Map_set m k v =
     (if Map_has m k then map (\<lambda>p. if fst p = k then (k, v) else p) m else m @ [(k, v)])"

definition Map_first_key :: "('k \<times> 'v) list \<Rightarrow> 'k option" where
  "Map_first_key m = (case m of [] \<Rightarrow> None | p # _ \<Rightarrow> Some (fst p))"

section \<open>class LRU\<close>

record ('k, 'd) LRU =
  maxSize :: nat
  cache :: "('k \<times> ('k, 'd) jsval) list"

definition LRU_new :: "nat \<Rightarrow> ('k, 'd) LRU" where
  "LRU_new n = \<lparr>maxSize = n, cache = []\<rparr>"

definition LRU_has :: "('k, 'd) LRU \<Rightarrow> 'k \<Rightarrow> bool" where
  "LRU_has c k = Map_has (cache c) k"

text \<open>\<open>get\<close> returns \<open>null\<close> on a miss; on a hit it moves the entry to the end.\<close>

definition LRU_get :: "('k, 'd) LRU \<Rightarrow> 'k \<Rightarrow> ('k, 'd) jsval \<times> ('k, 'd) LRU" where
  "LRU_get c k =
     (case map_of (cache c) k of
        None \<Rightarrow> (Null, c)
      | Some v \<Rightarrow> (v, c\<lparr>cache := Map_set (Map_delete (cache c) k) k v\<rparr>))"

text \<open>
  \<open>set\<close>: a present key is deleted first; otherwise, at or over capacity, the first key is
  deleted (on an empty map the first key is \<open>undefined\<close> and the delete does nothing);
  then the entry is stored.
\<close>

definition LRU_set :: "('k, 'd) LRU \<Rightarrow> 'k \<Rightarrow> ('k, 'd) jsval \<Rightarrow> ('k, 'd) LRU" where
  "LRU_set c k v =
     (let m = (if Map_has (cache c) k then Map_delete (cache c) k
               else if length (cache c) \<ge> maxSize c then
                 (case Map_first_key (cache c) of
                    None \<Rightarrow> cache c
                  | Some firstKey \<Rightarrow> Map_delete (cache c) firstKey)
               else cache c)
      in c\<lparr>cache := Map_set m k v\<rparr>)"

section \<open>class BloomFilter\<close>

text \<open>
  \<open>size_bf\<close> is the field \<open>size\<close>, \<open>bits\<close> the \<open>Uint8Array\<close>. The constructor computes
  \<open>numHashes\<close> in floating point as \<open>Math.ceil(-Math.log2(falsePositiveRate))\<close>; the model
  takes that number as the constructor's second argument (a rate of 1 or more, or a
  negative one, gives a bound under which both loops run no iteration: 0 here). A rate of
  exactly 0 would give \<open>Infinity\<close> and loops that do not end; \<open>FastLookup\<close> never passes
  it (\<open>options.fpr || 0.001\<close>), and the model has no such filter. \<open>estimateFPR\<close> writes
  nothing: it computes, in floating point, from \<open>numHashes\<close>, \<open>size\<close> and \<open>itemCount\<close>.
\<close>

record BloomFilter =
  size_bf :: nat
  numHashes :: nat
  bits :: "8 word list"
  itemCount :: nat

definition BloomFilter_new :: "nat \<Rightarrow> nat \<Rightarrow> BloomFilter" where
  "BloomFilter_new sz nh =
     \<lparr>size_bf = sz, numHashes = nh, bits = replicate ((sz + 7) div 8) 0, itemCount = 0\<rparr>"

text \<open>
  \<open>_hash(item, seed)\<close>: the first four bytes of the SHA-256 digest of
  \<open>item + seed.toString()\<close>, read as an unsigned 32-bit number, modulo \<open>size\<close>. The digest
  comes from Node's \<open>crypto\<close> module and is a parameter \<open>dg\<close> of the model. In JavaScript
  \<open>x % 0\<close> is \<open>NaN\<close>: the result \<open>None\<close>.
\<close>

definition hash_bf :: "('k \<Rightarrow> nat \<Rightarrow> 32 word) \<Rightarrow> BloomFilter \<Rightarrow> 'k \<Rightarrow> nat \<Rightarrow> nat option" where
  "hash_bf dg b item seed =
     (if size_bf b = 0 then None else Some (unat (dg item seed) mod size_bf b))"

text \<open>
  \<open>this.bits[byteIndex] |= (1 << bitIndex)\<close>. With a \<open>NaN\<close> index the typed array is
  neither read nor written; a write outside the array is dropped as well.
\<close>

definition or_bit :: "8 word list \<Rightarrow> nat option \<Rightarrow> 8 word list" where
  "or_bit bs idx =
     (case idx of
        None \<Rightarrow> bs
      | Some i \<Rightarrow>
          (let byteIndex = i div 8; bitIndex = i mod 8
           in if byteIndex < length bs
              then bs[byteIndex := (bs ! byteIndex) OR push_bit bitIndex 1]
              else bs))"

text \<open>
  \<open>this.bits[byteIndex] & (1 << bitIndex)\<close> as a condition. A read with a \<open>NaN\<close> index or
  outside the array gives \<open>undefined\<close>, and \<open>undefined & x\<close> is 0.
\<close>

definition and_bit :: "8 word list \<Rightarrow> nat option \<Rightarrow> bool" where
  "and_bit bs idx =
     (case idx of
        None \<Rightarrow> False
      | Some i \<Rightarrow>
          (let byteIndex = i div 8; bitIndex = i mod 8
           in byteIndex < length bs \<and> (bs ! byteIndex) AND push_bit bitIndex 1 \<noteq> 0))"

definition BloomFilter_add :: "('k \<Rightarrow> nat \<Rightarrow> 32 word) \<Rightarrow> 'k \<Rightarrow> BloomFilter \<Rightarrow> BloomFilter" where
  "BloomFilter_add dg item b =
     b\<lparr>bits := fold (\<lambda>i bs. or_bit bs (hash_bf dg b item i)) [0..<numHashes b] (bits b),
       itemCount := js_inc (itemCount b)\<rparr>"

definition mightContain :: "('k \<Rightarrow> nat \<Rightarrow> 32 word) \<Rightarrow> BloomFilter \<Rightarrow> 'k \<Rightarrow> bool" where
  "mightContain dg b item =
     list_all (\<lambda>i. and_bit (bits b) (hash_bf dg b item i)) [0..<numHashes b]"

section \<open>class FastLookup\<close>

text \<open>
  The counters of \<open>this.stats\<close> (all but \<open>totalTime\<close>, which is a sum of clock
  differences). \<open>getStats\<close> and the console output of \<open>preload\<close> only read the state.
\<close>

record Stats =
  lookups :: nat
  hotHits :: nat
  negativeHits :: nat
  sieveHits :: nat
  bloomHits :: nat
  fetches :: nat
  notFound :: nat

record ('k, 'd) FastLookup =
  hotCache :: "('k, 'd) LRU"
  bloom :: BloomFilter
  sieve :: "'k set"
  negative :: "'k set"
  index :: "'k \<rightharpoonup> ('k, 'd) jsval"
  stats :: Stats

text \<open>
  The constructor's \<open>options\<close>. A field that is \<open>undefined\<close> is \<open>None\<close>.
  \<open>options.cacheSize || 10000\<close> and \<open>options.bloomSize || 100000\<close> replace \<open>undefined\<close> and
  0 by the default. \<open>fprHashes\<close> is \<open>Math.ceil(-Math.log2(options.fpr))\<close> for an
  \<open>options.fpr\<close> that is not falsy; for \<open>undefined\<close> and 0 the rate is 0.001 and the
  number of hashes is 10. The sizes of the model are natural numbers: a negative or
  fractional \<open>cacheSize\<close> or \<open>bloomSize\<close>, which \<open>||\<close> lets through as it is, is not
  among the options modelled.
\<close>

record Options =
  cacheSize :: "nat option"
  bloomSize :: "nat option"
  fprHashes :: "nat option"

definition or_default :: "nat option \<Rightarrow> nat \<Rightarrow> nat" where
  "or_default x d = (case x of None \<Rightarrow> d | Some n \<Rightarrow> if n = 0 then d else n)"

definition FastLookup_new :: "Options \<Rightarrow> ('k, 'd) FastLookup" where
  "FastLookup_new opts =
     \<lparr>hotCache = LRU_new (or_default (cacheSize opts) 10000),
      bloom = BloomFilter_new (or_default (bloomSize opts) 100000)
                (case fprHashes opts of None \<Rightarrow> 10 | Some nh \<Rightarrow> nh),
      sieve = {},
      negative = {},
      index = Map.empty,
      stats = \<lparr>lookups = 0, hotHits = 0, negativeHits = 0, sieveHits = 0, bloomHits = 0,
               fetches = 0, notFound = 0\<rparr>\<rparr>"

text \<open>
  What \<open>fetchFromIndex\<close> takes from outside the program once its timer has fired:
  \<open>lowDraw\<close> is the outcome of \<open>Math.random() < 0.1\<close>, \<open>now\<close> is
  \<open>new Date().toISOString()\<close>.
\<close>

record FetchEnv =
  lowDraw :: bool
  now :: string

definition fetchFromIndex :: "FetchEnv \<Rightarrow> 'k \<Rightarrow> ('k, 'd) FastLookup \<Rightarrow> ('k, 'd) jsval" where
  "fetchFromIndex env hash s =
     (case index s hash of
        Some v \<Rightarrow> v
      | None \<Rightarrow> if lowDraw env then Null else Mock hash (now env))"

text \<open>
  \<open>get\<close> is an \<open>async\<close> function. It runs without interruption up to its first
  \<open>await\<close>, which is the call of \<open>fetchFromIndex\<close> on the sieve path (line 130) or on the
  bloom path (line 145), and other callers run while it is suspended there. \<open>get_begin\<close>
  is the part before the \<open>await\<close>: it either returns, or leaves the call suspended.
\<close>

datatype ('k, 'd) progress = Returned "('k, 'd) jsval" | AwaitSieve | AwaitBloom

definition get_begin ::
  "('k \<Rightarrow> nat \<Rightarrow> 32 word) \<Rightarrow> 'k \<Rightarrow> ('k, 'd) FastLookup \<Rightarrow> ('k, 'd) progress \<times> ('k, 'd) FastLookup" where
  "get_begin dg hash s0 =
     (let s = s0\<lparr>stats := (stats s0)\<lparr>lookups := js_inc (lookups (stats s0))\<rparr>\<rparr>
      in if LRU_has (hotCache s) hash then
           (Returned (fst (LRU_get (hotCache s) hash)),
            s\<lparr>stats := (stats s)\<lparr>hotHits := js_inc (hotHits (stats s))\<rparr>,
              hotCache := snd (LRU_get (hotCache s) hash)\<rparr>)
         else if hash \<in> negative s then
           (Returned Null, s\<lparr>stats := (stats s)\<lparr>negativeHits := js_inc (negativeHits (stats s))\<rparr>\<rparr>)
         else if hash \<in> sieve s then
           (AwaitSieve, s\<lparr>stats := (stats s)\<lparr>sieveHits := js_inc (sieveHits (stats s))\<rparr>\<rparr>)
         else if \<not> mightContain dg (bloom s) hash then
           (Returned Null,
            s\<lparr>stats := (stats s)\<lparr>notFound := js_inc (notFound (stats s))\<rparr>,
              negative := insert hash (negative s)\<rparr>)
         else
           (AwaitBloom,
            s\<lparr>stats := (stats s)\<lparr>bloomHits := js_inc (bloomHits (stats s)),
                                  fetches := js_inc (fetches (stats s))\<rparr>\<rparr>))"

text \<open>The rest of \<open>get\<close> on the sieve path, given what \<open>fetchFromIndex\<close> returned.\<close>

definition get_sieve_resume ::
  "'k \<Rightarrow> ('k, 'd) jsval \<Rightarrow> ('k, 'd) FastLookup \<Rightarrow> ('k, 'd) jsval \<times> ('k, 'd) FastLookup" where
  "get_sieve_resume hash result s = (result, s\<lparr>hotCache := LRU_set (hotCache s) hash result\<rparr>)"

text \<open>The rest of \<open>get\<close> on the bloom path, given what \<open>fetchFromIndex\<close> returned.\<close>

definition get_bloom_resume ::
  "('k \<Rightarrow> nat \<Rightarrow> 32 word) \<Rightarrow> 'k \<Rightarrow> ('k, 'd) jsval \<Rightarrow> ('k, 'd) FastLookup
     \<Rightarrow> ('k, 'd) jsval \<times> ('k, 'd) FastLookup" where
  "get_bloom_resume dg hash result s =
     (if truthy result then
        (result,
         s\<lparr>sieve := insert hash (sieve s),
           hotCache := LRU_set (hotCache s) hash result,
           bloom := BloomFilter_add dg hash (bloom s)\<rparr>)
      else
        (result,
         s\<lparr>negative := insert hash (negative s),
           stats := (stats s)\<lparr>notFound := js_inc (notFound (stats s))\<rparr>\<rparr>))"

text \<open>
  A call of \<open>get\<close> that nothing interleaves with: the fetch reads the index as the first
  part left it. The result is the returned value, the keys \<open>fetchFromIndex\<close> was called
  with (none or one), and the state afterwards.
\<close>

definition get ::
  "('k \<Rightarrow> nat \<Rightarrow> 32 word) \<Rightarrow> FetchEnv \<Rightarrow> 'k \<Rightarrow> ('k, 'd) FastLookup
     \<Rightarrow> ('k, 'd) jsval \<times> 'k list \<times> ('k, 'd) FastLookup" where
  "get dg env hash s0 =
     (case get_begin dg hash s0 of
        (Returned v, s) \<Rightarrow> (v, [], s)
      | (AwaitSieve, s) \<Rightarrow>
          (let r = get_sieve_resume hash (fetchFromIndex env hash s) s in (fst r, [hash], snd r))
      | (AwaitBloom, s) \<Rightarrow>
          (let r = get_bloom_resume dg hash (fetchFromIndex env hash s) s in (fst r, [hash], snd r)))"

text \<open>\<open>add\<close> has no \<open>await\<close>: it runs in one piece.\<close>

definition add :: "('k \<Rightarrow> nat \<Rightarrow> 32 word) \<Rightarrow> 'k \<Rightarrow> ('k, 'd) jsval \<Rightarrow> ('k, 'd) FastLookup \<Rightarrow> ('k, 'd) FastLookup" where
  "add dg hash data s =
     s\<lparr>bloom := BloomFilter_add dg hash (bloom s),
       sieve := insert hash (sieve s),
       hotCache := LRU_set (hotCache s) hash data,
       negative := negative s - {hash},
       index := (index s)(hash \<mapsto> data)\<rparr>"

text \<open>
  \<open>preload\<close> adds each hash to the bloom filter and stops once the clock shows more than
  100 ms: \<open>late i\<close> says whether \<open>performance.now() - start > 100\<close> holds at the end of
  iteration \<open>i\<close>.
\<close>

fun preload_loop ::
  "('k \<Rightarrow> nat \<Rightarrow> 32 word) \<Rightarrow> (nat \<Rightarrow> bool) \<Rightarrow> nat \<Rightarrow> 'k list \<Rightarrow> BloomFilter \<Rightarrow> BloomFilter" where
  "preload_loop dg late i [] b = b"
| "preload_loop dg late i (h # hs) b =
     (let b' = BloomFilter_add dg h b
      in if late i then b' else preload_loop dg late (Suc i) hs b')"

definition preload ::
  "('k \<Rightarrow> nat \<Rightarrow> 32 word) \<Rightarrow> (nat \<Rightarrow> bool) \<Rightarrow> 'k list \<Rightarrow> ('k, 'd) FastLookup \<Rightarrow> ('k, 'd) FastLookup" where
  "preload dg late hashes s = s\<lparr>bloom := preload_loop dg late 0 hashes (bloom s)\<rparr>"

definition clear :: "('k, 'd) FastLookup \<Rightarrow> ('k, 'd) FastLookup" where
  "clear s = s\<lparr>hotCache := LRU_new 10000, sieve := {}, negative := {}\<rparr>"

section \<open>Overlapping calls\<close>

text \<open>
  Several calls of \<open>get\<close> can be in flight at once. A system state is the object together
  with the calls suspended at their \<open>await\<close>; an event is a call arriving, or the timer
  of one suspended call firing, after which that call runs to its end.
\<close>

datatype 'k pending = PendingSieve 'k | PendingBloom 'k

datatype ('k, 'd) event =
    CallGet 'k
  | FetchDone nat FetchEnv
  | CallAdd 'k "('k, 'd) jsval"
  | CallPreload "nat \<Rightarrow> bool" "'k list"
  | CallClear

fun resume ::
  "('k \<Rightarrow> nat \<Rightarrow> 32 word) \<Rightarrow> FetchEnv \<Rightarrow> 'k pending \<Rightarrow> ('k, 'd) FastLookup \<Rightarrow> ('k, 'd) FastLookup" where
  "resume dg env (PendingSieve h) s = snd (get_sieve_resume h (fetchFromIndex env h s) s)"
| "resume dg env (PendingBloom h) s = snd (get_bloom_resume dg h (fetchFromIndex env h s) s)"

fun exec ::
  "('k \<Rightarrow> nat \<Rightarrow> 32 word) \<Rightarrow> ('k, 'd) event \<Rightarrow> ('k, 'd) FastLookup \<times> 'k pending list
     \<Rightarrow> ('k, 'd) FastLookup \<times> 'k pending list" where
  "exec dg (CallGet h) (s, ps) =
     (case get_begin dg h s of
        (Returned v, s') \<Rightarrow> (s', ps)
      | (AwaitSieve, s') \<Rightarrow> (s', ps @ [PendingSieve h])
      | (AwaitBloom, s') \<Rightarrow> (s', ps @ [PendingBloom h]))"
| "exec dg (FetchDone i env) (s, ps) =
     (if i < length ps then (resume dg env (ps ! i) s, take i ps @ drop (Suc i) ps) else (s, ps))"
| "exec dg (CallAdd h v) (s, ps) = (add dg h v s, ps)"
| "exec dg (CallPreload late hs) (s, ps) = (preload dg late hs s, ps)"
| "exec dg CallClear (s, ps) = (clear s, ps)"

definition run ::
  "('k \<Rightarrow> nat \<Rightarrow> 32 word) \<Rightarrow> ('k, 'd) event list \<Rightarrow> ('k, 'd) FastLookup \<Rightarrow> ('k, 'd) FastLookup" where
  "run dg evs s = fst (fold (exec dg) evs (s, []))"

text \<open>
  An arriving call collides when it is a \<open>get\<close> or an \<open>add\<close> of a key for which a \<open>get\<close>
  is suspended on the bloom path. A schedule is collision free from a system state when
  no call of it collides on arrival. \<open>settled\<close> is the condition such schedules keep:
  the two sets are disjoint, a key with a call suspended on the bloom path is in neither,
  and no key has two calls suspended on the bloom path.
\<close>

fun is_bloom :: "'k pending \<Rightarrow> bool" where
  "is_bloom (PendingBloom h) = True"
| "is_bloom (PendingSieve h) = False"

fun collides :: "('k, 'd) event \<Rightarrow> 'k pending list \<Rightarrow> bool" where
  "collides (CallGet h) ps = (PendingBloom h \<in> set ps)"
| "collides (CallAdd h v) ps = (PendingBloom h \<in> set ps)"
| "collides (FetchDone i env) ps = False"
| "collides (CallPreload late hs) ps = False"
| "collides CallClear ps = False"

fun collision_free ::
  "('k \<Rightarrow> nat \<Rightarrow> 32 word) \<Rightarrow> ('k, 'd) event list \<Rightarrow> ('k, 'd) FastLookup \<times> 'k pending list
     \<Rightarrow> bool" where
  "collision_free dg [] sp = True"
| "collision_free dg (ev # evs) sp =
     (\<not> collides ev (snd sp) \<and> collision_free dg evs (exec dg ev sp))"

definition settled :: "('k, 'd) FastLookup \<times> 'k pending list \<Rightarrow> bool" where
  "settled sp =
     (sieve (fst sp) \<inter> negative (fst sp) = {}
      \<and> (\<forall>h. PendingBloom h \<in> set (snd sp)
              \<longrightarrow> h \<notin> sieve (fst sp) \<and> h \<notin> negative (fst sp))
      \<and> distinct (filter is_bloom (snd sp)))"

section \<open>Concrete inputs\<close>

text \<open>
  Small inputs on which the theorems below are instantiated: two digests (constantly 0,
  and the length of the key plus the seed), a clock that never passes the budget of
  \<open>preload\<close>, \<open>new FastLookup({bloomSize: 8, fpr: 0.5})\<close>, the two outcomes of the random
  draw, a lookup after \<open>preload(['z'])\<close>, a lookup with \<open>'q'\<close> in the negative set, a
  schedule in which two calls of \<open>get('z')\<close> overlap, and one in which \<open>get('y')\<close>,
  \<open>get('z')\<close> and \<open>add('w', r)\<close> overlap.
\<close>

definition dg_zero :: "string \<Rightarrow> nat \<Rightarrow> 32 word" where
  "dg_zero k i = 0"

definition dg_len :: "string \<Rightarrow> nat \<Rightarrow> 32 word" where
  "dg_len k i = of_nat (length k + i)"

definition never_late :: "nat \<Rightarrow> bool" where
  "never_late i = False"

definition opts_small :: Options where
  "opts_small = \<lparr>cacheSize = None, bloomSize = Some 8, fprHashes = Some 1\<rparr>"

definition env_low :: FetchEnv where
  "env_low = \<lparr>lowDraw = True, now = ''t1''\<rparr>"

definition env_high :: FetchEnv where
  "env_high = \<lparr>lowDraw = False, now = ''t2''\<rparr>"

definition warm_state :: "(string, nat) FastLookup" where
  "warm_state = preload dg_zero never_late [''z''] (FastLookup_new opts_small)"

definition cold_state :: "(string, nat) FastLookup" where
  "cold_state = (FastLookup_new opts_small)\<lparr>negative := {''q''}\<rparr>"

definition overlapping_gets :: "(string, nat) event list" where
  "overlapping_gets =
     [CallPreload never_late [''z''], CallGet ''z'', CallGet ''z'',
      FetchDone 0 env_low, FetchDone 0 env_high]"

definition separate_gets :: "(string, nat) event list" where
  "separate_gets =
     [CallPreload never_late [''y'', ''z''], CallGet ''y'', CallGet ''z'',
      CallAdd ''w'' (Obj 7), FetchDone 0 env_low, FetchDone 0 env_high]"

section \<open>The bloom filter never forgets a key\<close>

lemma length_or_bit: "length (or_bit bs idx) = length bs"
  by (simp add: or_bit_def Let_def split: option.splits)

lemma and_bit_or_bit_mono: "and_bit bs j \<Longrightarrow> and_bit (or_bit bs i) j"
  by (auto simp: and_bit_def or_bit_def Let_def and_exp_eq_0_iff_not_bit bit_or_iff nth_list_update
      split: option.splits)

lemma and_bit_or_bit_same: "n div 8 < length bs \<Longrightarrow> and_bit (or_bit bs (Some n)) (Some n)"
  by (simp add: and_bit_def or_bit_def Let_def and_exp_eq_0_iff_not_bit bit_or_iff bit_exp_iff)

lemma fold_or_bit_length: "length (fold (\<lambda>i bs. or_bit bs (f i)) is bs) = length bs"
  by (induction "is" arbitrary: bs) (simp_all add: length_or_bit)

lemma fold_or_bit_mono: "and_bit bs j \<Longrightarrow> and_bit (fold (\<lambda>i bs. or_bit bs (f i)) is bs) j"
  by (induction "is" arbitrary: bs) (simp_all add: and_bit_or_bit_mono)

lemma fold_or_bit_sets:
  "i \<in> set is \<Longrightarrow> f i = Some n \<Longrightarrow> n div 8 < length bs
   \<Longrightarrow> and_bit (fold (\<lambda>i bs. or_bit bs (f i)) is bs) (f i)"
proof (induction "is" arbitrary: bs)
  case Nil
  then show ?case by simp
next
  case (Cons a as)
  show ?case
  proof (cases "a = i")
    case True
    have "and_bit (or_bit bs (f i)) (f i)"
      using Cons.prems by (simp add: and_bit_or_bit_same)
    then show ?thesis using True by (simp add: fold_or_bit_mono)
  next
    case False
    then have "i \<in> set as" using Cons.prems by simp
    then show ?thesis using Cons.IH [of "or_bit bs (f a)"] Cons.prems by (simp add: length_or_bit)
  qed
qed

lemma size_bf_add: "size_bf (BloomFilter_add dg k b) = size_bf b"
  by (simp add: BloomFilter_add_def)

lemma numHashes_add: "numHashes (BloomFilter_add dg k b) = numHashes b"
  by (simp add: BloomFilter_add_def)

lemma hash_bf_add: "hash_bf dg (BloomFilter_add dg' k b) = hash_bf dg b"
  by (simp add: hash_bf_def fun_eq_iff size_bf_add)

lemma bits_add:
  "bits (BloomFilter_add dg k b) =
     fold (\<lambda>i bs. or_bit bs (hash_bf dg b k i)) [0..<numHashes b] (bits b)"
  by (simp add: BloomFilter_add_def)

lemma length_bits_add: "length (bits (BloomFilter_add dg k b)) = length (bits b)"
  by (simp add: bits_add fold_or_bit_length)

lemma hash_bf_in_range:
  assumes "0 < size_bf b" "length (bits b) = (size_bf b + 7) div 8" "hash_bf dg b k i = Some n"
  shows "n div 8 < length (bits b)"
proof -
  have "n < size_bf b" using assms(1,3) by (auto simp: hash_bf_def split: if_splits)
  then show ?thesis using assms(2) by simp
qed

lemma mightContain_after_add:
  assumes "0 < size_bf b" "length (bits b) = (size_bf b + 7) div 8"
  shows "mightContain dg (BloomFilter_add dg k b) k"
proof -
  have "and_bit (bits (BloomFilter_add dg k b)) (hash_bf dg b k i)"
    if "i \<in> set [0..<numHashes b]" for i
  proof -
    obtain n where n: "hash_bf dg b k i = Some n"
      using assms(1) by (auto simp: hash_bf_def)
    have "n div 8 < length (bits b)" using hash_bf_in_range [OF assms n] .
    then show ?thesis unfolding bits_add using that n by (rule_tac fold_or_bit_sets)
  qed
  then show ?thesis
    by (simp add: mightContain_def list_all_iff hash_bf_add numHashes_add)
qed

lemma mightContain_add_mono:
  assumes "mightContain dg b k"
  shows "mightContain dg (BloomFilter_add dg k' b) k"
  using assms
  by (simp add: mightContain_def list_all_iff hash_bf_add numHashes_add bits_add fold_or_bit_mono)

lemma mightContain_fold_mono:
  "mightContain dg b k \<Longrightarrow> mightContain dg (fold (BloomFilter_add dg) ks b) k"
  by (induction ks arbitrary: b) (simp_all add: mightContain_add_mono)

lemma mightContain_of_added:
  "0 < size_bf b \<Longrightarrow> length (bits b) = (size_bf b + 7) div 8 \<Longrightarrow> k \<in> set ks
   \<Longrightarrow> mightContain dg (fold (BloomFilter_add dg) ks b) k"
proof (induction ks arbitrary: b)
  case Nil
  then show ?case by simp
next
  case (Cons a ks)
  show ?case
  proof (cases "a = k")
    case True
    then show ?thesis
      using Cons.prems by (simp add: mightContain_fold_mono mightContain_after_add)
  next
    case False
    then show ?thesis
      using Cons.prems Cons.IH [of "BloomFilter_add dg a b"]
      by (simp add: size_bf_add length_bits_add)
  qed
qed

text \<open>
  C2, as the code has it. \<open>add\<close> is the only method that writes to a filter, so the life
  of a filter is its construction followed by a sequence \<open>ks\<close> of added keys. For a filter
  of positive size, every key of the sequence is reported as possibly present at the end
  of it, whatever is added before or after that key.
\<close>

theorem bloom_no_false_negatives:
  assumes "0 < sz" "k \<in> set ks"
  shows "mightContain dg (fold (BloomFilter_add dg) ks (BloomFilter_new sz nh)) k"
  using assms by (intro mightContain_of_added) (simp_all add: BloomFilter_new_def)

theorem bloom_no_false_negatives_witness:
  "(0::nat) < 8 \<and> ''a'' \<in> set [''b'', ''a'', ''c'']
   \<and> mightContain dg_len
        (fold (BloomFilter_add dg_len) [''b'', ''a'', ''c''] (BloomFilter_new 8 2)) ''a''"
  using bloom_no_false_negatives [of 8 "''a''" "[''b'', ''a'', ''c'']" dg_len 2]
  by simp

text \<open>
  C2 as stated fails for \<open>new BloomFilter(0)\<close>: every index is \<open>NaN\<close>, \<open>add\<close> writes no
  bit, and \<open>mightContain\<close> answers \<open>false\<close> for the key just added.
\<close>

theorem bloom_size_zero_counterexample:
  "\<not> mightContain dg_zero (BloomFilter_add dg_zero ''x'' (BloomFilter_new 0 10)) ''x''"
  by (simp add: mightContain_def BloomFilter_add_def BloomFilter_new_def hash_bf_def and_bit_def
      upt_rec)

section \<open>Adding a key twice\<close>

lemma word_or_absorb: "bit (w::8 word) n \<Longrightarrow> w OR 2 ^ n = w"
  by (rule bit_eqI) (auto simp: bit_or_iff bit_exp_iff)

lemma or_bit_absorb: "and_bit bs idx \<Longrightarrow> or_bit bs idx = bs"
  by (cases idx)
    (simp_all add: and_bit_def or_bit_def Let_def and_exp_eq_0_iff_not_bit word_or_absorb)

lemma or_bit_None: "or_bit bs None = bs"
  by (simp add: or_bit_def)

lemma or_bit_outside: "\<not> n div 8 < length bs \<Longrightarrow> or_bit bs (Some n) = bs"
  by (simp add: or_bit_def Let_def)

lemma or_bit_settled:
  "i \<in> set is \<Longrightarrow>
   or_bit (fold (\<lambda>i bs. or_bit bs (f i)) is bs) (f i) = fold (\<lambda>i bs. or_bit bs (f i)) is bs"
proof (cases "f i")
  case None
  then show ?thesis by (simp add: or_bit_None)
next
  case (Some n)
  assume i: "i \<in> set is"
  show ?thesis
  proof (cases "n div 8 < length bs")
    case True
    then show ?thesis
      using fold_or_bit_sets [of i "is" f n bs] i Some by (simp add: or_bit_absorb)
  next
    case False
    then show ?thesis using Some by (simp add: or_bit_outside fold_or_bit_length)
  qed
qed

lemma fold_or_bit_id:
  "(\<And>i. i \<in> set is \<Longrightarrow> or_bit bs (f i) = bs) \<Longrightarrow> fold (\<lambda>i bs. or_bit bs (f i)) is bs = bs"
  by (induction "is") simp_all

lemma bits_add_add:
  "bits (BloomFilter_add dg k (BloomFilter_add dg k b)) = bits (BloomFilter_add dg k b)"
  unfolding bits_add [of dg k "BloomFilter_add dg k b"] hash_bf_add numHashes_add
  unfolding bits_add
  by (rule fold_or_bit_id) (rule or_bit_settled)

text \<open>
  C7, as the code has it. Adding \<open>k\<close> a second time changes neither the bit array nor
  \<open>size\<close> nor \<open>numHashes\<close>, so \<open>mightContain\<close> answers the same for every key \<open>k'\<close>. But
  every \<open>add\<close> runs \<open>itemCount++\<close>: after the second \<open>add\<close> the count is incremented once
  more (one higher, as long as it stays below \<open>2^53\<close>), and \<open>estimateFPR\<close> reads that
  count.
\<close>

theorem bloom_add_twice:
  "bits (BloomFilter_add dg k (BloomFilter_add dg k b)) = bits (BloomFilter_add dg k b)
   \<and> size_bf (BloomFilter_add dg k (BloomFilter_add dg k b)) = size_bf (BloomFilter_add dg k b)
   \<and> numHashes (BloomFilter_add dg k (BloomFilter_add dg k b))
       = numHashes (BloomFilter_add dg k b)
   \<and> mightContain dg (BloomFilter_add dg k (BloomFilter_add dg k b)) k'
       = mightContain dg (BloomFilter_add dg k b) k'
   \<and> itemCount (BloomFilter_add dg k (BloomFilter_add dg k b))
       = js_inc (itemCount (BloomFilter_add dg k b))
   \<and> (itemCount b + 1 < 2 ^ 53 \<longrightarrow>
        itemCount (BloomFilter_add dg k (BloomFilter_add dg k b))
          = itemCount (BloomFilter_add dg k b) + 1)"
proof -
  have m: "mightContain dg (BloomFilter_add dg k (BloomFilter_add dg k b)) k'
             = mightContain dg (BloomFilter_add dg k b) k'"
    by (simp add: mightContain_def hash_bf_add numHashes_add bits_add_add)
  have c: "itemCount (BloomFilter_add dg k b') = js_inc (itemCount b')" for b'
    by (simp add: BloomFilter_add_def)
  show ?thesis
    using m by (simp add: bits_add_add size_bf_add numHashes_add c js_inc_def)
qed

text \<open>An instance of C7's theorem: \<open>'x'\<close> added twice to a fresh filter of 8 bits.\<close>

theorem bloom_add_twice_witness:
  "itemCount (BloomFilter_new 8 1) + 1 < 2 ^ 53
   \<and> bits (BloomFilter_add dg_zero ''x'' (BloomFilter_add dg_zero ''x'' (BloomFilter_new 8 1)))
       = bits (BloomFilter_add dg_zero ''x'' (BloomFilter_new 8 1))
   \<and> mightContain dg_zero
        (BloomFilter_add dg_zero ''x'' (BloomFilter_add dg_zero ''x'' (BloomFilter_new 8 1))) ''y''
       = mightContain dg_zero (BloomFilter_add dg_zero ''x'' (BloomFilter_new 8 1)) ''y''
   \<and> itemCount (BloomFilter_add dg_zero ''x'' (BloomFilter_add dg_zero ''x'' (BloomFilter_new 8 1)))
       = itemCount (BloomFilter_add dg_zero ''x'' (BloomFilter_new 8 1)) + 1"
proof -
  have h: "itemCount (BloomFilter_new 8 1) + 1 < 2 ^ 53"
    by (simp add: BloomFilter_new_def)
  show ?thesis
    using h bloom_add_twice [of dg_zero "''x''" "BloomFilter_new 8 1" "''y''"] by blast
qed

text \<open>
  C7 as stated fails: the filter after two \<open>add('x')\<close> is not the filter after one, their
  \<open>itemCount\<close> being 2 and 1.
\<close>

theorem bloom_add_twice_counterexample:
  "BloomFilter_add dg_zero ''x'' (BloomFilter_add dg_zero ''x'' (BloomFilter_new 8 1))
   \<noteq> BloomFilter_add dg_zero ''x'' (BloomFilter_new 8 1)"
proof
  assume "BloomFilter_add dg_zero ''x'' (BloomFilter_add dg_zero ''x'' (BloomFilter_new 8 1))
          = BloomFilter_add dg_zero ''x'' (BloomFilter_new 8 1)"
  then have "itemCount (BloomFilter_add dg_zero ''x''
                 (BloomFilter_add dg_zero ''x'' (BloomFilter_new 8 1)))
             = itemCount (BloomFilter_add dg_zero ''x'' (BloomFilter_new 8 1))"
    by simp
  then show False by (simp add: BloomFilter_add_def BloomFilter_new_def js_inc_def)
qed

section \<open>Eviction from the LRU cache\<close>

lemma Map_has_iff: "Map_has m k \<longleftrightarrow> k \<in> fst ` set m"
  by (simp add: Map_has_def map_of_eq_None_iff)

lemma Map_set_fresh: "k \<notin> fst ` set m \<Longrightarrow> Map_set m k v = m @ [(k, v)]"
  by (simp add: Map_set_def Map_has_iff)

lemma Map_delete_first:
  "distinct (map fst (p # m)) \<Longrightarrow> Map_delete (p # m) (fst p) = m"
  by (force simp: Map_delete_def filter_id_conv image_iff)

lemma LRU_set_under:
  "k \<notin> fst ` set (cache c) \<Longrightarrow> length (cache c) < maxSize c
   \<Longrightarrow> LRU_set c k v = c\<lparr>cache := cache c @ [(k, v)]\<rparr>"
  by (simp add: LRU_set_def Let_def Map_has_iff Map_set_fresh)

lemma LRU_set_full:
  "k \<notin> fst ` set (cache c) \<Longrightarrow> maxSize c \<le> length (cache c) \<Longrightarrow> cache c = p # m
   \<Longrightarrow> distinct (map fst (cache c))
   \<Longrightarrow> LRU_set c k v = c\<lparr>cache := m @ [(k, v)]\<rparr>"
  using Map_delete_first [of p m]
  by (simp add: LRU_set_def Let_def Map_has_iff Map_first_key_def Map_set_fresh image_iff)

lemma fill_under:
  "distinct (map fst (cache c @ kvs)) \<Longrightarrow> length (cache c) + length kvs \<le> maxSize c
   \<Longrightarrow> fold (\<lambda>kv c. LRU_set c (fst kv) (snd kv)) kvs c = c\<lparr>cache := cache c @ kvs\<rparr>"
proof (induction kvs arbitrary: c)
  case Nil
  then show ?case by simp
next
  case (Cons kv kvs)
  have 1: "LRU_set c (fst kv) (snd kv) = c\<lparr>cache := cache c @ [kv]\<rparr>"
    using Cons.prems by (intro LRU_set_under [THEN trans]) (auto simp: image_iff)
  show ?case using Cons.prems by (simp add: 1 Cons.IH)
qed

text \<open>
  C5, as the code has it. Into \<open>new LRU(C)\<close> with \<open>C\<close> at least 1, the entries \<open>kvs\<close>,
  \<open>C + 1\<close> of them with distinct keys, are stored with \<open>set\<close> in order and nothing is
  read in between. Then the cache holds exactly the entries after the first, in order:
  the first key is absent and each of the other \<open>C\<close> keys is present.
\<close>

theorem lru_evicts_first_inserted:
  assumes "1 \<le> C" "length kvs = C + 1" "distinct (map fst kvs)"
  shows "cache (fold (\<lambda>kv c. LRU_set c (fst kv) (snd kv)) kvs (LRU_new C)) = tl kvs
         \<and> \<not> LRU_has (fold (\<lambda>kv c. LRU_set c (fst kv) (snd kv)) kvs (LRU_new C)) (fst (hd kvs))
         \<and> (\<forall>kv \<in> set (tl kvs).
               LRU_has (fold (\<lambda>kv c. LRU_set c (fst kv) (snd kv)) kvs (LRU_new C)) (fst kv))"
proof -
  let ?ins = "\<lambda>kv c. LRU_set c (fst kv) (snd kv)"
  obtain ini lst where kvs: "kvs = ini @ [lst]" and li: "length ini = C"
    using assms(2) by (cases kvs rule: rev_cases) auto
  obtain p m where ini: "ini = p # m" using li assms(1) by (cases ini) auto
  have d: "distinct (map fst (ini @ [lst]))" using assms(3) kvs by simp
  have f1: "fold ?ins ini (LRU_new C) = \<lparr>maxSize = C, cache = ini\<rparr>"
    using fill_under [of "LRU_new C" ini] d li by (simp add: LRU_new_def)
  have f2: "LRU_set \<lparr>maxSize = C, cache = ini\<rparr> (fst lst) (snd lst)
              = \<lparr>maxSize = C, cache = m @ [lst]\<rparr>"
    using LRU_set_full [of "fst lst" "\<lparr>maxSize = C, cache = ini\<rparr>" p m "snd lst"] d li ini
    by (auto simp: image_iff)
  have "fold ?ins kvs (LRU_new C) = LRU_set (fold ?ins ini (LRU_new C)) (fst lst) (snd lst)"
    by (simp add: kvs)
  then have "fold ?ins kvs (LRU_new C) = \<lparr>maxSize = C, cache = m @ [lst]\<rparr>"
    by (simp only: f1 f2)
  then have c: "cache (fold ?ins kvs (LRU_new C)) = tl kvs"
    by (simp add: kvs ini)
  have hdk: "fst (hd kvs) \<notin> fst ` set (tl kvs)"
    using assms(3) kvs ini by (auto simp: image_iff)
  show ?thesis
    using hdk by (simp add: LRU_has_def Map_has_iff c)
qed

text \<open>An instance of C5's theorem: three keys into a cache of capacity 2.\<close>

theorem lru_evicts_first_inserted_witness:
  "(1::nat) \<le> 2 \<and> length [(''a'', Obj (1::nat)), (''b'', Null), (''c'', Obj 3)] = 2 + 1
   \<and> distinct (map fst [(''a'', Obj (1::nat)), (''b'', Null), (''c'', Obj 3)])
   \<and> cache (fold (\<lambda>kv c. LRU_set c (fst kv) (snd kv))
              [(''a'', Obj (1::nat)), (''b'', Null), (''c'', Obj 3)] (LRU_new 2))
       = [(''b'', Null), (''c'', Obj 3)]
   \<and> \<not> LRU_has (fold (\<lambda>kv c. LRU_set c (fst kv) (snd kv))
                  [(''a'', Obj (1::nat)), (''b'', Null), (''c'', Obj 3)] (LRU_new 2)) ''a''
   \<and> LRU_has (fold (\<lambda>kv c. LRU_set c (fst kv) (snd kv))
                [(''a'', Obj (1::nat)), (''b'', Null), (''c'', Obj 3)] (LRU_new 2)) ''b''
   \<and> LRU_has (fold (\<lambda>kv c. LRU_set c (fst kv) (snd kv))
                [(''a'', Obj (1::nat)), (''b'', Null), (''c'', Obj 3)] (LRU_new 2)) ''c''"
  using lru_evicts_first_inserted [of 2 "[(''a'', Obj (1::nat)), (''b'', Null), (''c'', Obj 3)]"]
  by simp

text \<open>
  C5 as stated fails for \<open>new LRU(0)\<close>: \<open>set\<close> finds the map empty, deletes the key
  \<open>undefined\<close>, and stores the entry, so after \<open>0 + 1\<close> insertions the first-inserted key
  is present.
\<close>

theorem lru_capacity_zero_counterexample:
  "LRU_has (LRU_set (LRU_new 0) ''a'' (Obj (1::nat))) ''a''"
  by (simp add: LRU_has_def LRU_set_def LRU_new_def Map_has_def Map_set_def Map_first_key_def)

section \<open>The cascade of get\<close>

lemma map_of_Map_set: "map_of (Map_set m k v) k = Some v"
  by (induction m) (auto simp: Map_set_def Map_has_def)

lemma LRU_has_set: "LRU_has (LRU_set c k v) k"
  by (simp add: LRU_has_def LRU_set_def Let_def Map_has_def map_of_Map_set)

lemma LRU_get_set: "fst (LRU_get (LRU_set c k v) k) = v"
  by (simp add: LRU_get_def LRU_set_def Let_def map_of_Map_set)

lemma mightContain_warm:
  "mightContain dg_zero (BloomFilter_add dg_zero ''z'' (BloomFilter_new 8 (Suc 0))) ''z''"
  by (simp add: mightContain_def BloomFilter_add_def BloomFilter_new_def hash_bf_def and_bit_def
      or_bit_def dg_zero_def)

lemma warm_state_facts:
  "\<not> LRU_has (hotCache warm_state) ''z'' \<and> ''z'' \<notin> negative warm_state
   \<and> ''z'' \<notin> sieve warm_state
   \<and> mightContain dg_zero (bloom warm_state) ''z'' \<and> index warm_state ''z'' = None
   \<and> sieve warm_state \<inter> negative warm_state = {}"
  by (simp add: warm_state_def preload_def never_late_def FastLookup_new_def opts_small_def
      LRU_has_def LRU_new_def Map_has_def or_default_def mightContain_warm)

text \<open>
  C3. When \<open>k\<close> is in the negative set and not in the hot cache, \<open>get(k)\<close> returns \<open>null\<close>,
  calls \<open>fetchFromIndex\<close> for no key, and changes nothing but the counters \<open>lookups\<close> and
  \<open>negativeHits\<close>.
\<close>

theorem negative_short_circuit:
  assumes "\<not> LRU_has (hotCache s) k" "k \<in> negative s"
  shows "get dg env k s =
           (Null, [], s\<lparr>stats := (stats s)\<lparr>lookups := js_inc (lookups (stats s)),
                                            negativeHits := js_inc (negativeHits (stats s))\<rparr>\<rparr>)"
  using assms by (simp add: get_def get_begin_def Let_def)

text \<open>An instance of C3's theorem: \<open>get('q')\<close> with \<open>'q'\<close> in the negative set.\<close>

theorem negative_short_circuit_witness:
  "\<not> LRU_has (hotCache cold_state) ''q'' \<and> ''q'' \<in> negative cold_state
   \<and> get dg_zero env_high ''q'' cold_state =
       (Null, [],
        cold_state\<lparr>stats := (stats cold_state)
          \<lparr>lookups := js_inc (lookups (stats cold_state)),
           negativeHits := js_inc (negativeHits (stats cold_state))\<rparr>\<rparr>)"
proof -
  have h1: "\<not> LRU_has (hotCache cold_state) ''q''"
    by (simp add: cold_state_def FastLookup_new_def LRU_has_def LRU_new_def Map_has_def)
  have h2: "''q'' \<in> negative cold_state"
    by (simp add: cold_state_def)
  show ?thesis
    using h1 h2 negative_short_circuit [OF h1 h2, of dg_zero env_high] by blast
qed

text \<open>
  C4. Right after \<open>add(k, r)\<close>, \<open>get(k)\<close> returns \<open>r\<close>: it returns before any \<open>await\<close>, on
  the hot-cache branch (\<open>hotHits\<close> is the one tier counter that moves), and
  \<open>fetchFromIndex\<close> is called for no key. This holds from every state, for every \<open>r\<close>
  (\<open>null\<close> included) and every capacity of the hot cache.
\<close>

theorem add_then_get_hot:
  "fst (get dg env k (add dg k r s)) = r
   \<and> fst (snd (get dg env k (add dg k r s))) = []
   \<and> fst (get_begin dg k (add dg k r s)) = Returned r
   \<and> hotHits (stats (snd (snd (get dg env k (add dg k r s))))) = js_inc (hotHits (stats s))"
proof -
  have h: "LRU_has (hotCache (add dg k r s)) k" by (simp add: add_def LRU_has_set)
  have g: "fst (LRU_get (hotCache (add dg k r s)) k) = r" by (simp add: add_def LRU_get_set)
  have st: "stats (add dg k r s) = stats s" by (simp add: add_def)
  have b: "fst (get_begin dg k (add dg k r s)) = Returned r"
    using h g by (simp add: get_begin_def Let_def)
  have c: "hotHits (stats (snd (get_begin dg k (add dg k r s)))) = js_inc (hotHits (stats s))"
    using h st by (simp add: get_begin_def Let_def)
  obtain s' where s': "get_begin dg k (add dg k r s) = (Returned r, s')"
    using b by (cases "get_begin dg k (add dg k r s)") simp
  show ?thesis using s' b c by (simp add: get_def)
qed

text \<open>An instance of C4's theorem: \<open>add('z', r)\<close> and then \<open>get('z')\<close>.\<close>

theorem add_then_get_hot_witness:
  "fst (get dg_zero env_low ''z'' (add dg_zero ''z'' (Obj 7) cold_state)) = Obj 7
   \<and> fst (snd (get dg_zero env_low ''z'' (add dg_zero ''z'' (Obj 7) cold_state))) = []
   \<and> fst (get_begin dg_zero ''z'' (add dg_zero ''z'' (Obj 7) cold_state)) = Returned (Obj 7)"
  using add_then_get_hot [of dg_zero env_low "''z''" "Obj 7" cold_state] by blast

text \<open>
  C10. Take a key \<open>k\<close> that is not hot, in neither existence set, not stored in the index,
  and for which the bloom filter says maybe. From that one state, \<open>get(k)\<close> calls
  \<open>fetchFromIndex\<close> once and then depends on the draw: with \<open>Math.random() < 0.1\<close> it
  returns \<open>null\<close> and leaves \<open>k\<close> in the negative set and out of the sieve; otherwise it
  returns the fabricated record and leaves \<open>k\<close> in the sieve and out of the negative set.
\<close>

theorem cold_miss_depends_on_draw:
  assumes "\<not> LRU_has (hotCache s) k" "k \<notin> negative s" "k \<notin> sieve s"
    "mightContain dg (bloom s) k" "index s k = None"
  shows "(\<exists>s'. get dg \<lparr>lowDraw = True, now = t\<rparr> k s = (Null, [k], s')
               \<and> k \<in> negative s' \<and> k \<notin> sieve s')
       \<and> (\<exists>s'. get dg \<lparr>lowDraw = False, now = t\<rparr> k s = (Mock k t, [k], s')
               \<and> k \<in> sieve s' \<and> k \<notin> negative s')"
  using assms
  by (simp add: get_def get_begin_def Let_def fetchFromIndex_def get_bloom_resume_def)

text \<open>An instance of C10's theorem: \<open>get('z')\<close> after \<open>preload(['z'])\<close>.\<close>

theorem cold_miss_depends_on_draw_witness:
  "\<not> LRU_has (hotCache warm_state) ''z'' \<and> ''z'' \<notin> negative warm_state
   \<and> ''z'' \<notin> sieve warm_state
   \<and> mightContain dg_zero (bloom warm_state) ''z'' \<and> index warm_state ''z'' = None
   \<and> (\<exists>s'. get dg_zero \<lparr>lowDraw = True, now = ''t''\<rparr> ''z'' warm_state = (Null, [''z''], s')
            \<and> ''z'' \<in> negative s' \<and> ''z'' \<notin> sieve s')
   \<and> (\<exists>s'. get dg_zero \<lparr>lowDraw = False, now = ''t''\<rparr> ''z'' warm_state
              = (Mock ''z'' ''t'', [''z''], s')
            \<and> ''z'' \<in> sieve s' \<and> ''z'' \<notin> negative s')"
  using warm_state_facts
    cold_miss_depends_on_draw [of warm_state "''z''" dg_zero "''t''"]
  by blast

section \<open>Sieve and negative set\<close>

lemma sets_get_begin:
  "sieve s \<inter> negative s = {} \<Longrightarrow> get_begin dg k s = (p, s')
   \<Longrightarrow> sieve s' \<inter> negative s' = {}
       \<and> (p = AwaitBloom \<longrightarrow> k \<notin> sieve s' \<and> k \<notin> negative s')"
  by (auto simp: get_begin_def Let_def split: if_splits)

lemma sets_sieve_resume:
  "sieve (snd (get_sieve_resume k r s)) = sieve s
   \<and> negative (snd (get_sieve_resume k r s)) = negative s"
  by (simp add: get_sieve_resume_def)

lemma sets_bloom_resume:
  "sieve s \<inter> negative s = {} \<Longrightarrow> k \<notin> sieve s \<Longrightarrow> k \<notin> negative s
   \<Longrightarrow> sieve (snd (get_bloom_resume dg k r s)) \<inter> negative (snd (get_bloom_resume dg k r s)) = {}"
  by (auto simp: get_bloom_resume_def)

lemma get_disjoint:
  assumes "sieve s \<inter> negative s = {}"
  shows "sieve (snd (snd (get dg env k s))) \<inter> negative (snd (snd (get dg env k s))) = {}"
proof -
  obtain p s' where b: "get_begin dg k s = (p, s')" by (cases "get_begin dg k s")
  note i = sets_get_begin [OF assms b]
  show ?thesis
  proof (cases p)
    case (Returned v)
    then show ?thesis using b i by (simp add: get_def)
  next
    case AwaitSieve
    then show ?thesis using b i by (simp add: get_def Let_def sets_sieve_resume)
  next
    case AwaitBloom
    then show ?thesis using b i by (simp add: get_def Let_def sets_bloom_resume)
  qed
qed

text \<open>
  Run one at a time, from its start to its end with no other call in between, each
  operation (a \<open>get\<close> together with its fetch, \<open>add\<close>, \<open>preload\<close>, \<open>clear\<close>) takes a state
  with disjoint sieve and negative set to such a state, and \<open>add(k, v)\<close> ends with \<open>k\<close> in
  the sieve and out of the negative set.
\<close>

lemma sequential_ops_keep_exclusion:
  assumes "sieve s \<inter> negative s = {}"
  shows "sieve (snd (snd (get dg env k s))) \<inter> negative (snd (snd (get dg env k s))) = {}
       \<and> sieve (add dg k v s) \<inter> negative (add dg k v s) = {}
       \<and> k \<in> sieve (add dg k v s) \<and> k \<notin> negative (add dg k v s)
       \<and> sieve (preload dg late ks s) \<inter> negative (preload dg late ks s) = {}
       \<and> sieve (clear s) \<inter> negative (clear s) = {}"
proof -
  have a: "sieve (add dg k v s) \<inter> negative (add dg k v s) = {}"
    using assms by (auto simp: add_def)
  have p: "sieve (preload dg late ks s) \<inter> negative (preload dg late ks s) = {}"
    using assms by (simp add: preload_def)
  show ?thesis using get_disjoint [OF assms] a p by (simp add: add_def clear_def)
qed

lemma get_begin_sets:
  "get_begin dg k s = (p, s') \<Longrightarrow>
     sieve s' = sieve s
     \<and> (negative s' = negative s
          \<or> (negative s' = insert k (negative s) \<and> k \<notin> sieve s \<and> (\<exists>v. p = Returned v)))
     \<and> (p = AwaitBloom \<longrightarrow> k \<notin> sieve s \<and> k \<notin> negative s \<and> negative s' = negative s)"
  by (auto simp: get_begin_def Let_def split: if_splits)

lemma settled_CallGet:
  assumes "settled (s, ps)" "\<not> collides (CallGet h) ps"
  shows "settled (exec dg (CallGet h) (s, ps))"
proof -
  obtain p s' where b: "get_begin dg h s = (p, s')" by (cases "get_begin dg h s")
  note g = get_begin_sets [OF b]
  show ?thesis
  proof (cases p)
    case (Returned v)
    then show ?thesis using assms b g by (auto simp: settled_def)
  next
    case AwaitSieve
    then show ?thesis using assms b g by (auto simp: settled_def)
  next
    case AwaitBloom
    then show ?thesis using assms b g by (auto simp: settled_def)
  qed
qed

lemma settled_CallAdd:
  assumes "settled (s, ps)" "\<not> collides (CallAdd h v) ps"
  shows "settled (exec dg (CallAdd h v) (s, ps))"
  using assms by (auto simp: settled_def add_def)

lemma settled_other:
  assumes "settled (s, ps)"
  shows "settled (exec dg (CallPreload late hs) (s, ps))" "settled (exec dg CallClear (s, ps))"
  using assms by (auto simp: settled_def preload_def clear_def)

lemma resume_sets:
  "sieve (resume dg env (PendingSieve h) s) = sieve s"
  "negative (resume dg env (PendingSieve h) s) = negative s"
  "(sieve (resume dg env (PendingBloom h) s) = insert h (sieve s)
      \<and> negative (resume dg env (PendingBloom h) s) = negative s)
   \<or> (sieve (resume dg env (PendingBloom h) s) = sieve s
      \<and> negative (resume dg env (PendingBloom h) s) = insert h (negative s))"
  by (simp_all add: get_sieve_resume_def get_bloom_resume_def)

lemma settled_FetchDone:
  assumes "settled (s, ps)"
  shows "settled (exec dg (FetchDone i env) (s, ps))"
proof (cases "i < length ps")
  case False
  then show ?thesis using assms by simp
next
  case True
  let ?rest = "take i ps @ drop (Suc i) ps"
  have ps: "ps = take i ps @ ps ! i # drop (Suc i) ps"
    using True by (rule id_take_nth_drop)
  have sub: "set ?rest \<subseteq> set ps"
    by (metis Un_subset_iff set_append set_drop_subset set_take_subset)
  have d: "distinct (filter is_bloom ps)" using assms by (simp add: settled_def)
  have dr: "distinct (filter is_bloom ?rest)"
    using d by (subst (asm) ps) (auto split: if_splits)
  show ?thesis
  proof (cases "ps ! i")
    case (PendingSieve h)
    then show ?thesis
      using assms True sub dr resume_sets(1,2) [of dg env h s]
      by (auto simp: settled_def)
  next
    case (PendingBloom h)
    have notin: "PendingBloom h \<notin> set ?rest"
      using d PendingBloom by (subst (asm) ps) (auto split: if_splits)
    have hs: "h \<notin> sieve s \<and> h \<notin> negative s"
      using assms True PendingBloom by (auto simp: settled_def dest: nth_mem)
    show ?thesis
      using assms True sub dr notin hs PendingBloom resume_sets(3) [of dg env h s]
      by (auto simp: settled_def)
  qed
qed

lemma settled_exec:
  "settled sp \<Longrightarrow> \<not> collides ev (snd sp) \<Longrightarrow> settled (exec dg ev sp)"
proof -
  assume a: "settled sp" "\<not> collides ev (snd sp)"
  obtain s ps where sp: "sp = (s, ps)" by (cases sp)
  show ?thesis
  proof (cases ev)
    case (CallGet h)
    then show ?thesis using a sp settled_CallGet [of s ps h dg] by simp
  next
    case (FetchDone i env)
    then show ?thesis using a sp settled_FetchDone [of s ps dg i env] by simp
  next
    case (CallAdd h v)
    then show ?thesis using a sp settled_CallAdd [of s ps h v dg] by simp
  next
    case (CallPreload late hs)
    then show ?thesis using a sp settled_other(1) [of s ps dg late hs] by simp
  next
    case CallClear
    then show ?thesis using a sp settled_other(2) [of s ps dg] by simp
  qed
qed

lemma settled_fold:
  "settled sp \<Longrightarrow> collision_free dg evs sp \<Longrightarrow> settled (fold (exec dg) evs sp)"
  by (induction evs arbitrary: sp) (simp_all add: settled_exec)

text \<open>
  Overlap as such does no harm. Whatever the index holds and whatever the fetches draw,
  the two sets stay disjoint along every schedule that is collision free: calls may
  suspend and resume in any order, as long as no \<open>get\<close> or \<open>add\<close> of a key arrives while a
  \<open>get\<close> of that key is suspended on the bloom path.
\<close>

lemma collision_free_keeps_exclusion:
  assumes "sieve s \<inter> negative s = {}" "collision_free dg evs (s, [])"
  shows "sieve (run dg evs s) \<inter> negative (run dg evs s) = {}"
proof -
  have "settled (s, [])" using assms(1) by (simp add: settled_def)
  then have "settled (fold (exec dg) evs (s, []))" using assms(2) by (rule settled_fold)
  then show ?thesis by (simp add: settled_def run_def)
qed

lemma mightContain_warm2:
  "mightContain dg_zero
     (BloomFilter_add dg_zero ''z'' (BloomFilter_add dg_zero ''y'' (BloomFilter_new 8 (Suc 0)))) k"
  by (simp add: mightContain_def BloomFilter_add_def BloomFilter_new_def hash_bf_def and_bit_def
      or_bit_def dg_zero_def)

text \<open>
  Such a schedule: after \<open>preload(['y', 'z'])\<close>, \<open>get('y')\<close> and \<open>get('z')\<close> are both
  suspended on the bloom path when \<open>add('w', r)\<close> arrives, and then resume one after the
  other.
\<close>

lemma separate_gets_collision_free:
  "collision_free dg_zero separate_gets (FastLookup_new opts_small, [])
   \<and> sieve (run dg_zero separate_gets (FastLookup_new opts_small))
       \<inter> negative (run dg_zero separate_gets (FastLookup_new opts_small)) = {}"
proof -
  have c: "collision_free dg_zero separate_gets (FastLookup_new opts_small, [])"
    by (simp add: separate_gets_def FastLookup_new_def opts_small_def preload_def never_late_def
        get_begin_def LRU_has_def LRU_new_def Map_has_def or_default_def mightContain_warm2
        Let_def add_def)
  have d: "sieve (FastLookup_new opts_small) \<inter> negative (FastLookup_new opts_small) = {}"
    by (simp add: FastLookup_new_def)
  show ?thesis using c collision_free_keeps_exclusion [OF d c] by simp
qed

text \<open>
  C1, on the code. The claim is that no key is ever in both the sieve and the negative
  set. \<open>get\<close> checks the two sets before its \<open>await\<close> and inserts into one of them after
  it, without removing the key from the other as \<open>add\<close> does. After \<open>preload(['z'])\<close>, two
  calls of \<open>get('z')\<close> both pass the checks and wait for their fetch; the first fetch
  draws below 0.1 and its call puts \<open>'z'\<close> into the negative set, the second fetch
  fabricates a record and its call puts \<open>'z'\<close> into the sieve. When both have returned,
  \<open>'z'\<close> is in both sets.
\<close>

theorem overlapping_gets_counterexample:
  "''z'' \<in> sieve (run dg_zero overlapping_gets (FastLookup_new opts_small))
   \<and> ''z'' \<in> negative (run dg_zero overlapping_gets (FastLookup_new opts_small))"
  by (simp add: run_def overlapping_gets_def FastLookup_new_def opts_small_def preload_def
      never_late_def get_begin_def LRU_has_def LRU_new_def Map_has_def or_default_def
      mightContain_warm Let_def get_bloom_resume_def fetchFromIndex_def env_low_def env_high_def)

text \<open>That schedule is not collision free: the second \<open>get('z')\<close> collides with the first.\<close>

lemma overlapping_gets_collide:
  "\<not> collision_free dg_zero overlapping_gets (FastLookup_new opts_small, [])"
  by (simp add: overlapping_gets_def FastLookup_new_def opts_small_def preload_def never_late_def
      get_begin_def LRU_has_def LRU_new_def Map_has_def or_default_def mightContain_warm Let_def)

section \<open>clear\<close>

text \<open>
  C9. \<open>clear()\<close> leaves the hot cache, the sieve and the negative set empty, and the bloom
  filter as it was (bit array, number of hashes, item count), so \<open>mightContain\<close> answers
  as before for every key.
\<close>

theorem clear_keeps_bloom:
  "cache (hotCache (clear s)) = [] \<and> sieve (clear s) = {} \<and> negative (clear s) = {}
   \<and> bloom (clear s) = bloom s
   \<and> bits (bloom (clear s)) = bits (bloom s)
   \<and> numHashes (bloom (clear s)) = numHashes (bloom s)
   \<and> itemCount (bloom (clear s)) = itemCount (bloom s)
   \<and> mightContain dg (bloom (clear s)) k = mightContain dg (bloom s) k"
  by (simp add: clear_def LRU_new_def)

text \<open>An instance of C9's theorem: \<open>clear()\<close> after \<open>add('z', r)\<close>.\<close>

theorem clear_keeps_bloom_witness:
  "cache (hotCache (clear (add dg_zero ''z'' (Obj 7) cold_state))) = []
   \<and> sieve (clear (add dg_zero ''z'' (Obj 7) cold_state)) = {}
   \<and> negative (clear (add dg_zero ''z'' (Obj 7) cold_state)) = {}
   \<and> bloom (clear (add dg_zero ''z'' (Obj 7) cold_state))
       = bloom (add dg_zero ''z'' (Obj 7) cold_state)
   \<and> mightContain dg_zero (bloom (clear (add dg_zero ''z'' (Obj 7) cold_state))) ''z''"
proof -
  have "mightContain dg_zero (bloom (add dg_zero ''z'' (Obj 7) cold_state)) ''z''"
    by (simp add: add_def cold_state_def FastLookup_new_def opts_small_def or_default_def
        mightContain_warm)
  then show ?thesis
    using clear_keeps_bloom [of "add dg_zero ''z'' (Obj 7) cold_state" dg_zero "''z''"] by blast
qed

text \<open>
  C8, on the code: \<open>new FastLookup({cacheSize: 5})\<close> has a hot cache of capacity 5, and
  after \<open>clear()\<close>, which installs \<open>new LRU(10000)\<close>, the capacity is 10000.
\<close>

theorem clear_resets_capacity:
  "maxSize (hotCache (FastLookup_new
      \<lparr>cacheSize = Some 5, bloomSize = Some 8, fprHashes = Some 1\<rparr>)) = 5
   \<and> maxSize (hotCache (clear (FastLookup_new
      \<lparr>cacheSize = Some 5, bloomSize = Some 8, fprHashes = Some 1\<rparr>))) = 10000"
  by (simp add: clear_def FastLookup_new_def LRU_new_def or_default_def)

end
